theory Spec2Isabelle
  imports Main "HOL-Library.Log_Nat"
begin

section \<open>The shared message queue of \<open>main.c\<close>\<close>

text \<open>
  The C program keeps one global array \<open>message_queue\<close> of \<open>QUEUELEN\<close> slots and a
  global counter \<open>queue_pos\<close>. A slot is a \<open>message_t\<close>: two character arrays of
  \<open>STRLEN\<close> bytes each. The model keeps the arrays as lists of exactly that length and
  the counter as an \<open>int\<close>, as the source does.

  A value of type \<open>string\<close> that stands for a \<open>char *\<close> argument is the sequence of bytes
  found at that address; the C string it denotes ends before the first NUL byte
  (\<open>c_str\<close>). A \<open>char *\<close> that may be \<open>NULL\<close> is a \<open>string option\<close>.
\<close>

definition STRLEN :: nat where
  "STRLEN = 256"

definition QUEUELEN :: nat where
  "QUEUELEN = 100"

definition NUL :: char where
  "NUL = CHR 0x00"

record message_t =
  target :: "char list"
  content :: "char list"

record queue =
  message_queue :: "message_t list"
  queue_pos :: int

datatype fault =
    NullDeref \<comment> \<open>\<open>strncpy\<close> from a \<open>NULL\<close> source\<close>
  | Overread \<comment> \<open>a read past the end of \<open>message_queue\<close>\<close>
  | Overflow \<comment> \<open>\<open>sprintf\<close> past the end of \<open>cmd\<close>\<close>

definition c_str :: "string \<Rightarrow> string" where
  "c_str s = takeWhile (\<lambda>c. c \<noteq> NUL) s"

text \<open>
  \<open>strncpy(dst, src, n)\<close> writes exactly \<open>n\<close> bytes to \<open>dst\<close>: the bytes of the source
  string, cut after \<open>n\<close> bytes, and NUL bytes for the rest. When the source has \<open>n\<close> bytes
  or more, no NUL byte is written.
\<close>

definition strncpy :: "string \<Rightarrow> nat \<Rightarrow> char list" where
  "strncpy src n = take n (c_str src @ replicate n NUL)"

text \<open>The global variables at program start: static storage is zero-initialised.\<close>

definition empty_message :: message_t where
  "empty_message = \<lparr>target = replicate STRLEN NUL, content = replicate STRLEN NUL\<rparr>"

definition init_queue :: queue where
  "init_queue = \<lparr>message_queue = replicate QUEUELEN empty_message, queue_pos = 0\<rparr>"

text \<open>
  \<open>enqueue_message\<close>, lines 30 to 38. The body between lock and unlock runs under the
  mutex, so it is one atomic step on the queue. The two \<open>strncpy\<close> calls write slot
  \<open>queue_pos\<close>, and the second one increments the counter. A \<open>NULL\<close> message with a
  non-\<open>NULL\<close> target and a free slot makes \<open>strncpy\<close> read through a null pointer.
\<close>

definition enqueue_message :: "string option \<Rightarrow> string option \<Rightarrow> queue \<Rightarrow> fault + queue" where
  "enqueue_message tgt message q =
     (case tgt of
        None \<Rightarrow> Inr q
      | Some t \<Rightarrow>
          if queue_pos q < int QUEUELEN then
            (case message of
               None \<Rightarrow> Inl NullDeref
             | Some m \<Rightarrow>
                 Inr (q\<lparr>message_queue :=
                          (message_queue q)[nat (queue_pos q) :=
                             \<lparr>target = strncpy t STRLEN, content = strncpy m STRLEN\<rparr>],
                        queue_pos := queue_pos q + 1\<rparr>))
          else Inr q)"

text \<open>
  \<open>printf("%s", a)\<close> prints the bytes from the address \<open>a\<close> up to the first NUL byte.
  The two arrays of a slot are adjacent and the slots of \<open>message_queue\<close> are
  adjacent, so an array that holds no NUL byte is printed together with what follows
  it in the queue. \<open>memory ms\<close> is the bytes of the slots \<open>ms\<close>; \<open>read_str\<close> takes the
  bytes from an address to the end of \<open>message_queue\<close>. Only a read that finds no NUL
  byte up to the end of \<open>message_queue\<close> leaves the memory that the model has.
\<close>

definition memory :: "message_t list \<Rightarrow> char list" where
  "memory ms = concat (map (\<lambda>m. target m @ content m) ms)"

definition read_str :: "char list \<Rightarrow> fault + string" where
  "read_str a = (if NUL \<in> set a then Inr (c_str a) else Inl Overread)"

text \<open>
  Line 44 for one slot \<open>m\<close>; \<open>after\<close> is the bytes of the slots that follow it in the
  array.
\<close>

definition print_message :: "message_t \<Rightarrow> char list \<Rightarrow> fault + string" where
  "print_message m after =
     (case read_str (target m @ content m @ after) of
        Inl f \<Rightarrow> Inl f
      | Inr t \<Rightarrow>
          (case read_str (content m @ after) of
             Inl f \<Rightarrow> Inl f
           | Inr c \<Rightarrow> Inr (t @ '': '' @ c)))"

text \<open>
  The \<open>for\<close> loop of \<open>receive_and_print\<close>, line 43: \<open>print_slots n ms\<close> prints the first
  \<open>n\<close> slots of \<open>ms\<close>, the array from the current index on. An index past the last
  slot is a read outside the array.
\<close>

fun print_slots :: "nat \<Rightarrow> message_t list \<Rightarrow> fault + string list" where
  "print_slots 0 ms = Inr []"
| "print_slots (Suc n) [] = Inl Overread"
| "print_slots (Suc n) (m # ms) =
     (case print_message m (memory ms) of
        Inl f \<Rightarrow> Inl f
      | Inr l \<Rightarrow>
          (case print_slots n ms of
             Inl f \<Rightarrow> Inl f
           | Inr ls \<Rightarrow> Inr (l # ls)))"

text \<open>
  One round of the endless loop of \<open>receive_and_print\<close>, lines 42 to 46, atomic under
  the mutex: it prints the slots below \<open>queue_pos\<close> and resets the counter. The result
  is the text written to standard output, one string for each \<open>printf\<close> call, and the
  queue afterwards. The loop itself never ends; the thread is cancelled from outside.
\<close>

definition receive_and_print_round :: "queue \<Rightarrow> fault + (string list \<times> queue)" where
  "receive_and_print_round q =
     (case print_slots (nat (queue_pos q)) (message_queue q) of
        Inl f \<Rightarrow> Inl f
      | Inr ls \<Rightarrow> Inr (ls, q\<lparr>queue_pos := 0\<rparr>))"

subsection \<open>Interleaved executions\<close>

text \<open>
  Every access to the queue happens under the one mutex (a static \<open>pthread_mutex_t\<close>,
  taken to work as an initialised one), so a concurrent execution of any number of
  worker threads and the printer thread is a sequence of atomic steps: a call of
  \<open>enqueue_message\<close> by some worker, or one round of the printer. The system state is
  the queue and the text written to standard output so far.
\<close>

datatype event =
    Enqueue "string option" "string option"
  | PrinterRound

record sys =
  shared :: queue
  stdout :: "string list"

definition init_sys :: sys where
  "init_sys = \<lparr>shared = init_queue, stdout = []\<rparr>"

definition step :: "event \<Rightarrow> sys \<Rightarrow> fault + sys" where
  "step e s =
     (case e of
        Enqueue t m \<Rightarrow>
          (case enqueue_message t m (shared s) of
             Inl f \<Rightarrow> Inl f
           | Inr q \<Rightarrow> Inr (s\<lparr>shared := q\<rparr>))
      | PrinterRound \<Rightarrow>
          (case receive_and_print_round (shared s) of
             Inl f \<Rightarrow> Inl f
           | Inr (ls, q) \<Rightarrow> Inr \<lparr>shared = q, stdout = stdout s @ ls\<rparr>))"

fun run :: "event list \<Rightarrow> sys \<Rightarrow> fault + sys" where
  "run [] s = Inr s"
| "run (e # es) s = (case step e s of Inl f \<Rightarrow> Inl f | Inr s' \<Rightarrow> run es s')"

section \<open>Numbers and their text, as \<open>printf\<close> writes them\<close>

text \<open>
  The C types \<open>float\<close> and \<open>double\<close> are the IEEE 754 formats binary32 and binary64,
  with 24 and 53 significant bits, rounded to nearest, ties to even, and every
  operation is rounded to its own type. A finite value of either format is a rational
  number, so the model computes with \<open>rat\<close> and rounds after every operation.
  \<open>NegZero\<close> is the value \<open>-0.0\<close>; the flag of \<open>Infinity\<close> and \<open>NaN\<close> is the sign bit.
\<close>

datatype fp = Finite rat | NegZero | Infinity bool | NaN bool

text \<open>Rounding a rational to the nearest integer, a tie to the even neighbour.\<close>

definition rne :: "rat \<Rightarrow> int" where
  "rne x =
     (let f = \<lfloor>x\<rfloor>; d = x - of_int f
      in if d < 1 / 2 then f else if 1 / 2 < d then f + 1 else if even f then f else f + 1)"

text \<open>The exponent of a positive rational: \<open>2 powi ilog2 x \<le> x < 2 powi (ilog2 x + 1)\<close>.\<close>

definition ilog2 :: "rat \<Rightarrow> int" where
  "ilog2 x = (if 1 \<le> x then bitlen \<lfloor>x\<rfloor> - 1 else - bitlen (\<lceil>1 / x\<rceil> - 1))"

text \<open>
  Rounding to \<open>p\<close> significant bits: the value is scaled so that its integer part has
  \<open>p\<close> bits, rounded to an integer and scaled back. The exponent range is left out:
  the values the program rounds lie far inside it (see \<open>loss_percent\<close>).
\<close>

definition round_to_prec :: "nat \<Rightarrow> rat \<Rightarrow> rat" where
  "round_to_prec p x =
     (if x = 0 then 0
      else let e = ilog2 \<bar>x\<bar> - int p + 1 in of_int (rne (x / 2 powi e)) * 2 powi e)"

definition to_double :: "rat \<Rightarrow> rat" where
  "to_double = round_to_prec 53"

definition to_float :: "rat \<Rightarrow> rat" where
  "to_float = round_to_prec 24"

text \<open>
  Line 59: \<open>float loss = 100.0 - pingres->recv * 100.0 / pingres->sent\<close>. Both counts
  are converted to \<open>double\<close>, the product, the quotient and the difference are
  computed in \<open>double\<close>, and the result is stored in a \<open>float\<close>. With \<open>sent = 0\<close> the
  division does not trap: a nonzero dividend gives an infinity, whose sign the
  subtraction flips, and \<open>0.0 / 0.0\<close> gives a NaN (with the sign bit set, as the
  division of x86-64 produces it).
\<close>

definition loss_percent :: "int \<Rightarrow> int \<Rightarrow> fp" where
  "loss_percent r s =
     (if s = 0 then (if r = 0 then NaN True else Infinity (0 < r))
      else Finite (to_float (to_double (100 -
             to_double (to_double (to_double (of_int r) * 100) / to_double (of_int s))))))"

text \<open>Decimal digits, and \<open>%d\<close>.\<close>

definition digit :: "nat \<Rightarrow> char" where
  "digit d = char_of (48 + d)"

fun show_nat :: "nat \<Rightarrow> string" where
  "show_nat n = (if n < 10 then [digit n] else show_nat (n div 10) @ [digit (n mod 10)])"

declare show_nat.simps [simp del]

definition fmt_d :: "int \<Rightarrow> string" where
  "fmt_d i = (if i < 0 then ''-'' @ show_nat (nat (- i)) else show_nat (nat i))"

text \<open>
  \<open>%.<d>f\<close>: the exact value is rounded to \<open>d\<close> decimals (nearest, ties to even, as
  glibc does) and written with a leading minus sign when its sign bit is set.
\<close>

definition frac_digits :: "nat \<Rightarrow> nat \<Rightarrow> string" where
  "frac_digits d n = map (\<lambda>i. digit (n div 10 ^ (d - 1 - i) mod 10)) [0..<d]"

definition fmt_fixed :: "nat \<Rightarrow> rat \<Rightarrow> string" where
  "fmt_fixed d x =
     (let n = nat (rne (x * 10 ^ d))
      in show_nat (n div 10 ^ d) @ (if d = 0 then [] else ''.'' @ frac_digits d (n mod 10 ^ d)))"

definition fmt_f :: "nat \<Rightarrow> fp \<Rightarrow> string" where
  "fmt_f d v =
     (case v of
        Finite x \<Rightarrow> (if x < 0 then ''-'' else []) @ fmt_fixed d \<bar>x\<bar>
      | NegZero \<Rightarrow> ''-'' @ fmt_fixed d 0
      | Infinity neg \<Rightarrow> (if neg then ''-inf'' else ''inf'')
      | NaN neg \<Rightarrow> (if neg then ''-nan'' else ''nan''))"

section \<open>The probe worker\<close>

text \<open>
  \<open>extractor.h\<close> and its functions are not among the sources, so the three extractors
  are parameters of the model. Each returns 0 on a match and stores the numbers it
  found through its pointer arguments: here \<open>Some\<close> of those numbers. A call that does
  not match is taken to leave its arguments and the line as they were. The fields of
  \<open>ping_t\<close> are read off their uses in \<open>ping_message\<close>: \<open>%d\<close> for the counts, \<open>%.3f\<close>
  for the times.
\<close>

record extractor =
  extract_seq :: "string \<Rightarrow> (int \<times> fp) option"
  extract_packets :: "string \<Rightarrow> (int \<times> int) option"
  extract_stats :: "string \<Rightarrow> (fp \<times> fp \<times> fp \<times> fp) option"

record ping_t =
  target_p :: "string option"
  sent :: int
  recv :: int
  min_p :: fp
  avg :: fp
  max_p :: fp
  stdev :: fp

definition newline :: string where
  "newline = [CHR 0x0A]"

definition seq_text :: "int \<Rightarrow> fp \<Rightarrow> string" where
  "seq_text seq len = ''seq '' @ fmt_d seq @ '' time '' @ fmt_f 3 len @ '' ms'' @ newline"

definition packets_text :: "int \<Rightarrow> int \<Rightarrow> string" where
  "packets_text s r =
     ''sent: '' @ fmt_d s @ '' received: '' @ fmt_d r @ '' loss: '' @
     fmt_f 1 (loss_percent r s) @ ''%'' @ newline"

definition stats_text :: "fp \<Rightarrow> fp \<Rightarrow> fp \<Rightarrow> fp \<Rightarrow> string" where
  "stats_text mn av mx sd =
     ''min: '' @ fmt_f 3 mn @ '' avg: '' @ fmt_f 3 av @ '' max: '' @ fmt_f 3 mx @
     '' stdev: '' @ fmt_f 3 sd @ '' (ms)'' @ newline"

text \<open>
  \<open>ping_message\<close>, lines 51 to 71. The result is the record \<open>pingres\<close> and the buffer
  \<open>message\<close> as the call leaves them, and the queue. The three texts are what \<open>sprintf\<close>
  writes into \<open>message\<close>; each fits the 256 bytes of the buffer for 32-bit counts and
  binary32 times. The first branch returns after \<open>sprintf\<close>: it does not call
  \<open>enqueue_message\<close>.
\<close>

definition ping_message ::
  "extractor \<Rightarrow> ping_t \<Rightarrow> string \<Rightarrow> queue \<Rightarrow> ping_t \<times> string \<times> (fault + queue)" where
  "ping_message ex pingres message q =
     (case extract_seq ex message of
        Some (seq, len) \<Rightarrow> (pingres, seq_text seq len, Inr q)
      | None \<Rightarrow>
          (case extract_packets ex message of
             Some (s, r) \<Rightarrow>
               (pingres\<lparr>sent := s, recv := r\<rparr>, packets_text s r,
                enqueue_message (target_p pingres) (Some (packets_text s r)) q)
           | None \<Rightarrow>
               (case extract_stats ex message of
                  Some (mn, av, mx, sd) \<Rightarrow>
                    (pingres\<lparr>min_p := mn, avg := av, max_p := mx, stdev := sd\<rparr>,
                     stats_text mn av mx sd,
                     enqueue_message (target_p pingres) (Some (stats_text mn av mx sd)) q)
                | None \<Rightarrow> (pingres, message, enqueue_message None None q))))"

record task_t =
  target_t :: string
  timeout :: int
  counts :: int

text \<open>Line 76: the command line that \<open>sprintf\<close> builds for \<open>popen\<close>.\<close>

definition ping_cmd :: "task_t \<Rightarrow> string" where
  "ping_cmd task = ''ping -c '' @ fmt_d (counts task) @ '' '' @ target_t task"

text \<open>
  The \<open>while\<close> loop of lines 82 to 84. The list holds the strings that the successive
  calls of \<open>fgets\<close> return before the end of the stream; the loop stops when a step
  faults.
\<close>

fun read_lines :: "extractor \<Rightarrow> ping_t \<Rightarrow> string list \<Rightarrow> queue \<Rightarrow> fault + queue" where
  "read_lines ex pingres [] q = Inr q"
| "read_lines ex pingres (message # rest) q =
     (case ping_message ex pingres message q of
        (pingres', _, Inl f) \<Rightarrow> Inl f
      | (pingres', _, Inr q') \<Rightarrow> read_lines ex pingres' rest q')"

text \<open>
  \<open>exec_ping\<close>, lines 73 to 93, run without another thread in between. The command
  is written into \<open>cmd\<close>, an array of \<open>STRLEN\<close> bytes, with its terminating NUL byte: a
  command of \<open>STRLEN\<close> bytes or more is written past the end of the array. \<open>popen\<close> is
  the environment: \<open>None\<close> for a \<open>NULL\<close> pipe, else the lines of the process. \<open>pingres0\<close>
  is the local \<open>pingres\<close> before line 81, whose fields are not initialised. The result
  is the messages that the worker passed to \<open>perror\<close>, and the queue.
\<close>

definition exec_ping ::
  "extractor \<Rightarrow> (string \<rightharpoonup> string list) \<Rightarrow> ping_t \<Rightarrow> task_t \<Rightarrow> queue
     \<Rightarrow> string list \<times> (fault + queue)" where
  "exec_ping ex popen pingres0 task q =
     (if STRLEN \<le> length (ping_cmd task) then ([], Inl Overflow)
      else
        (case popen (ping_cmd task) of
           Some ls \<Rightarrow> ([], read_lines ex (pingres0\<lparr>target_p := Some (target_t task)\<rparr>) ls q)
         | None \<Rightarrow> ([''Error openning pipe''], Inr q)))"

section \<open>The orchestrator\<close>













section \<open>Notions of the specification\<close>

text \<open>
  The entries present in the queue are the slots below \<open>queue_pos\<close>; \<open>slot t m\<close> is
  the slot that one call of \<open>enqueue_message\<close> writes for the strings \<open>t\<close> and \<open>m\<close>.
\<close>

definition queue_entries :: "queue \<Rightarrow> message_t list" where
  "queue_entries q = take (nat (queue_pos q)) (message_queue q)"

definition slot :: "string \<Rightarrow> string \<Rightarrow> message_t" where
  "slot t m = \<lparr>target = strncpy t STRLEN, content = strncpy m STRLEN\<rparr>"

text \<open>The entries present after a run of events from the initial state.\<close>

definition entries_after :: "event list \<Rightarrow> fault + message_t list" where
  "entries_after es =
     (case run es init_sys of Inl f \<Rightarrow> Inl f | Inr s \<Rightarrow> Inr (queue_entries (shared s)))"



text \<open>The bounds on the counter, and the fixed size of the array.\<close>

definition queue_inv :: "queue \<Rightarrow> bool" where
  "queue_inv q \<longleftrightarrow>
     0 \<le> queue_pos q \<and> queue_pos q \<le> int QUEUELEN \<and> length (message_queue q) = QUEUELEN"


definition short_slot :: "message_t \<Rightarrow> bool" where
  "short_slot x \<longleftrightarrow>
     (\<exists>t m. x = slot t m \<and> length (c_str t) < STRLEN \<and> length (c_str m) < STRLEN)"

definition printable :: "queue \<Rightarrow> bool" where
  "printable q \<longleftrightarrow> (\<forall>x \<in> set (queue_entries q). short_slot x)"

text \<open>The line that \<open>printf\<close> writes for a slot whose two arrays hold a NUL byte.\<close>

definition line_of :: "message_t \<Rightarrow> string" where
  "line_of x = c_str (target x) @ '': '' @ c_str (content x)"

text \<open>
  The Line Classifier of the specification, section 4.1: a line is tested against the
  sequence-reply pattern first, then summary-counts, then summary-stats, and the
  first match decides; a line that matches none is unrecognized. It is stated here
  in the words of the specification and compared with \<open>ping_message\<close> below.
\<close>

datatype ping_event =
    SequenceReply int fp
  | SummaryCounts int int
  | SummaryStats fp fp fp fp
  | Unrecognized

definition classify_spec :: "extractor \<Rightarrow> string \<Rightarrow> ping_event" where
  "classify_spec ex line =
     (case extract_seq ex line of
        Some (seq, len) \<Rightarrow> SequenceReply seq len
      | None \<Rightarrow>
          (case extract_packets ex line of
             Some (s, r) \<Rightarrow> SummaryCounts s r
           | None \<Rightarrow>
               (case extract_stats ex line of
                  Some (mn, av, mx, sd) \<Rightarrow> SummaryStats mn av mx sd
                | None \<Rightarrow> Unrecognized)))"

section \<open>Properties of the queue\<close>

lemma queue_inv_init: "queue_inv init_queue"
  by (simp add: queue_inv_def init_queue_def)

lemma enqueue_message_inv:
  "queue_inv q \<Longrightarrow> enqueue_message t m q = Inr q' \<Longrightarrow> queue_inv q'"
  by (auto simp: queue_inv_def enqueue_message_def split: option.splits if_splits)

lemma receive_and_print_round_inv:
  "queue_inv q \<Longrightarrow> receive_and_print_round q = Inr (ls, q') \<Longrightarrow> queue_inv q'"
  by (auto simp: queue_inv_def receive_and_print_round_def split: sum.splits)

lemma step_inv: "queue_inv (shared s) \<Longrightarrow> step e s = Inr s' \<Longrightarrow> queue_inv (shared s')"
  by (auto simp: step_def dest: enqueue_message_inv receive_and_print_round_inv
      split: event.splits sum.splits)

lemma run_inv: "queue_inv (shared s) \<Longrightarrow> run es s = Inr s' \<Longrightarrow> queue_inv (shared s')"
  by (induction es arbitrary: s) (auto dest: step_inv split: sum.splits)

lemma c_str_no_NUL: "NUL \<notin> set (c_str s)"
  by (auto simp: c_str_def dest: set_takeWhileD)

lemma c_str_append_NUL: "c_str (c_str s @ replicate (Suc n) NUL) = c_str s"
proof -
  have "\<And>x. x \<in> set (c_str s) \<Longrightarrow> x \<noteq> NUL"
    using c_str_no_NUL by metis
  then have "takeWhile (\<lambda>c. c \<noteq> NUL) (c_str s @ replicate (Suc n) NUL) =
      c_str s @ takeWhile (\<lambda>c. c \<noteq> NUL) (replicate (Suc n) NUL)"
    by (rule takeWhile_append2)
  then show ?thesis by (simp add: c_str_def)
qed

lemma length_strncpy: "length (strncpy s n) = n"
  by (simp add: strncpy_def)


lemma strncpy_short:
  "length (c_str s) < n \<Longrightarrow> strncpy s n = c_str s @ replicate (n - length (c_str s)) NUL"
  by (simp add: strncpy_def)

lemma c_str_terminated: "NUL \<notin> set xs \<Longrightarrow> c_str (xs @ NUL # ys) = xs"
proof -
  assume "NUL \<notin> set xs"
  then have "\<And>x. x \<in> set xs \<Longrightarrow> x \<noteq> NUL" by blast
  then have "takeWhile (\<lambda>c. c \<noteq> NUL) (xs @ NUL # ys) = xs @ takeWhile (\<lambda>c. c \<noteq> NUL) (NUL # ys)"
    by (rule takeWhile_append2)
  then show ?thesis by (simp add: c_str_def)
qed

lemma read_str_terminated: "NUL \<notin> set xs \<Longrightarrow> read_str (xs @ NUL # ys) = Inr xs"
  by (simp add: read_str_def c_str_terminated)

lemma strncpy_short_NUL:
  assumes "length (c_str s) < n"
  shows "\<exists>k. strncpy s n = c_str s @ NUL # replicate k NUL"
proof -
  obtain k where k: "n - length (c_str s) = Suc k"
    using assms by (metis Suc_diff_Suc)
  show ?thesis
    by (simp add: strncpy_short [OF assms] k)
qed

lemma read_str_strncpy_short:
  assumes "length (c_str s) < n"
  shows "read_str (strncpy s n @ after) = Inr (c_str s)"
proof -
  from strncpy_short_NUL [OF assms] obtain k where
    "strncpy s n = c_str s @ NUL # replicate k NUL" ..
  then have "strncpy s n @ after = c_str s @ NUL # (replicate k NUL @ after)" by simp
  then show ?thesis
    by (simp only: read_str_terminated [OF c_str_no_NUL])
qed

lemma c_str_strncpy_short:
  assumes "length (c_str s) < n"
  shows "c_str (strncpy s n) = c_str s"
proof -
  from strncpy_short_NUL [OF assms] obtain k where
    "strncpy s n = c_str s @ NUL # replicate k NUL" ..
  then show ?thesis
    by (simp only: c_str_terminated [OF c_str_no_NUL])
qed

lemma print_message_slot_short:
  "length (c_str t) < STRLEN \<Longrightarrow> length (c_str m) < STRLEN \<Longrightarrow>
   print_message (slot t m) after = Inr (c_str t @ '': '' @ c_str m)"
  using read_str_strncpy_short [of t STRLEN "strncpy m STRLEN @ after"]
    read_str_strncpy_short [of m STRLEN after]
  by (simp add: print_message_def slot_def)

lemma line_of_slot:
  "length (c_str t) < STRLEN \<Longrightarrow> length (c_str m) < STRLEN \<Longrightarrow>
   line_of (slot t m) = c_str t @ '': '' @ c_str m"
  by (simp add: line_of_def slot_def c_str_strncpy_short)

lemma print_message_short_slot: "short_slot x \<Longrightarrow> print_message x after = Inr (line_of x)"
  by (auto simp: short_slot_def print_message_slot_short line_of_slot)

lemma print_slots_short:
  "n \<le> length ms \<Longrightarrow> \<forall>x \<in> set (take n ms). short_slot x \<Longrightarrow>
   print_slots n ms = Inr (map line_of (take n ms))"
proof (induction n arbitrary: ms)
  case 0
  then show ?case by simp
next
  case (Suc n)
  then obtain m rest where ms: "ms = m # rest" by (cases ms) auto
  with Suc.prems have "short_slot m" "n \<le> length rest" "\<forall>x \<in> set (take n rest). short_slot x"
    by simp_all
  with Suc.IH [of rest] show ?case
    by (simp add: ms print_message_short_slot)
qed

lemma receive_round_short:
  assumes "queue_inv q" and "printable q"
  shows "receive_and_print_round q = Inr (map line_of (queue_entries q), q\<lparr>queue_pos := 0\<rparr>)"
proof -
  from assms(1) have "nat (queue_pos q) \<le> length (message_queue q)"
    unfolding queue_inv_def by linarith
  moreover from assms(2) have "\<forall>x \<in> set (take (nat (queue_pos q)) (message_queue q)). short_slot x"
    by (simp add: printable_def queue_entries_def)
  ultimately have "print_slots (nat (queue_pos q)) (message_queue q) =
      Inr (map line_of (take (nat (queue_pos q)) (message_queue q)))"
    by (rule print_slots_short)
  then show ?thesis
    by (simp add: receive_and_print_round_def queue_entries_def)
qed

lemma take_take_append: "take n (take n xs @ ys) = take n (xs @ ys)"
  by (cases "n \<le> length xs") simp_all

lemma enqueue_message_entries:
  assumes "queue_inv q"
  shows "\<exists>q'. enqueue_message (Some t) (Some m) q = Inr q' \<and>
           queue_entries q' = take QUEUELEN (queue_entries q @ [slot t m])"
proof (cases "queue_pos q < int QUEUELEN")
  case True
  with assms have n: "nat (queue_pos q) < length (message_queue q)"
    by (simp add: queue_inv_def nat_less_iff)
  from assms have "nat (queue_pos q + 1) = Suc (nat (queue_pos q))"
    unfolding queue_inv_def by linarith
  with True n assms show ?thesis
    by (simp add: enqueue_message_def queue_entries_def slot_def take_Suc_conv_app_nth
        queue_inv_def)
next
  case False
  with assms have "length (queue_entries q) = QUEUELEN"
    by (simp add: queue_inv_def queue_entries_def)
  with False show ?thesis
    by (simp add: enqueue_message_def)
qed


lemma length_queue_entries: "queue_inv q \<Longrightarrow> length (queue_entries q) = nat (queue_pos q)"
  unfolding queue_inv_def queue_entries_def by (simp add: min_def) linarith

lemma queue_pos_entries: "queue_inv q \<Longrightarrow> queue_pos q = int (length (queue_entries q))"
  by (simp add: length_queue_entries) (simp add: queue_inv_def)

lemma step_Enqueue_null: "step (Enqueue None m) s = Inr s"
  by (simp add: step_def enqueue_message_def)

lemma step_Enqueue_entries:
  assumes "queue_inv (shared s)"
  shows "\<exists>s'. step (Enqueue (Some t) (Some m)) s = Inr s' \<and> stdout s' = stdout s \<and>
           queue_inv (shared s') \<and>
           queue_entries (shared s') = take QUEUELEN (queue_entries (shared s) @ [slot t m])"
proof -
  from enqueue_message_entries [OF assms, of t m] obtain q' where
    q': "enqueue_message (Some t) (Some m) (shared s) = Inr q'"
      "queue_entries q' = take QUEUELEN (queue_entries (shared s) @ [slot t m])"
    by blast
  from assms q'(1) have "queue_inv q'" by (rule enqueue_message_inv)
  with q' show ?thesis by (simp add: step_def)
qed

lemma run_enqueues:
  assumes "queue_inv (shared s)"
  shows "\<exists>s'. run (map (\<lambda>(t, m). Enqueue (Some t) (Some m)) es) s = Inr s' \<and>
           stdout s' = stdout s \<and> queue_inv (shared s') \<and>
           queue_entries (shared s') =
             take QUEUELEN (queue_entries (shared s) @ map (\<lambda>(t, m). slot t m) es)"
  using assms
proof (induction es arbitrary: s)
  case Nil
  then show ?case by (simp add: length_queue_entries queue_inv_def nat_le_iff)
next
  case (Cons e es)
  obtain t m where e: "e = (t, m)" by (cases e)
  from step_Enqueue_entries [OF Cons.prems, of t m] obtain s1 where
    s1: "step (Enqueue (Some t) (Some m)) s = Inr s1" "stdout s1 = stdout s"
      "queue_inv (shared s1)"
      "queue_entries (shared s1) = take QUEUELEN (queue_entries (shared s) @ [slot t m])"
    by blast
  from Cons.IH [OF s1(3)] obtain s' where
    s': "run (map (\<lambda>(t, m). Enqueue (Some t) (Some m)) es) s1 = Inr s'"
      "stdout s' = stdout s1" "queue_inv (shared s')"
      "queue_entries (shared s') =
         take QUEUELEN (queue_entries (shared s1) @ map (\<lambda>(t, m). slot t m) es)"
    by blast
  have "queue_entries (shared s') =
      take QUEUELEN ((queue_entries (shared s) @ [slot t m]) @ map (\<lambda>(t, m). slot t m) es)"
    unfolding s'(4) s1(4) by (rule take_take_append)
  then have "queue_entries (shared s') =
      take QUEUELEN (queue_entries (shared s) @ map (\<lambda>(t, m). slot t m) (e # es))"
    by (simp add: e)
  with s1 s' show ?case by (simp add: e)
qed

lemma queue_entries_init: "queue_entries init_queue = []"
  by (simp add: queue_entries_def init_queue_def)

lemma run_append:
  "run (xs @ ys) s = (case run xs s of Inl f \<Rightarrow> Inl f | Inr s' \<Rightarrow> run ys s')"
  by (induction xs arbitrary: s) (auto split: sum.splits)

lemma step_Enqueue_full:
  "int QUEUELEN \<le> queue_pos (shared s) \<Longrightarrow> step (Enqueue t m) s = Inr s"
  by (simp add: step_def enqueue_message_def split: option.splits)

text \<open>
  Claim C4, as amended. Take any \<open>QUEUELEN + 1\<close> calls of \<open>enqueue_message\<close> whose
  target and message are not \<open>NULL\<close>, on the initial queue. Afterwards the queue
  holds exactly the slots of the first \<open>QUEUELEN\<close> calls, in the order of the calls,
  and the run ends in the very state that the first \<open>QUEUELEN\<close> calls alone reach:
  the last call changes nothing and does not fault.
\<close>

theorem enqueue_beyond_capacity:
  assumes "length es = QUEUELEN + 1"
  shows "entries_after (map (\<lambda>(t, m). Enqueue (Some t) (Some m)) es) =
           Inr (map (\<lambda>(t, m). slot t m) (take QUEUELEN es)) \<and>
         run (map (\<lambda>(t, m). Enqueue (Some t) (Some m)) es) init_sys =
           run (map (\<lambda>(t, m). Enqueue (Some t) (Some m)) (butlast es)) init_sys"
proof -
  let ?enq = "\<lambda>(t, m). Enqueue (Some t) (Some m)"
  have inv: "queue_inv (shared init_sys)"
    by (simp add: init_sys_def queue_inv_init)
  from run_enqueues [OF inv, of "butlast es"] obtain s where
    s: "run (map ?enq (butlast es)) init_sys = Inr s" "queue_inv (shared s)"
      "queue_entries (shared s) =
         take QUEUELEN (queue_entries (shared init_sys) @ map (\<lambda>(t, m). slot t m) (butlast es))"
    by blast
  have e: "queue_entries (shared s) = map (\<lambda>(t, m). slot t m) (take QUEUELEN es)"
    using assms by (simp add: s(3) init_sys_def queue_entries_init take_map butlast_conv_take)
  have pos: "queue_pos (shared s) = int QUEUELEN"
    using assms by (simp add: queue_pos_entries [OF s(2)] e)
  from assms have "es \<noteq> []" by auto
  then have "butlast es @ [last es] = es" by simp
  then have "map ?enq es = map ?enq (butlast es) @ [?enq (last es)]"
    by (metis (no_types) map_append list.map(1) list.map(2))
  then have "run (map ?enq es) init_sys = run (map ?enq (butlast es) @ [?enq (last es)]) init_sys"
    by simp
  moreover have "step (?enq (last es)) s = Inr s"
    using pos by (cases "last es") (simp add: step_Enqueue_full)
  ultimately have "run (map ?enq es) init_sys = Inr s"
    by (simp add: run_append s(1))
  then show ?thesis using s(1) e by (simp add: entries_after_def)
qed

text \<open>The theorem at 100 equal entries followed by a different one.\<close>

theorem enqueue_beyond_capacity_witness:
  "entries_after (map (\<lambda>(t, m). Enqueue (Some t) (Some m))
     (replicate 100 (''a'', ''x'') @ [(''b'', ''y'')])) = Inr (replicate 100 (slot ''a'' ''x'')) \<and>
   run (map (\<lambda>(t, m). Enqueue (Some t) (Some m))
     (replicate 100 (''a'', ''x'') @ [(''b'', ''y'')])) init_sys =
   run (map (\<lambda>(t, m). Enqueue (Some t) (Some m)) (replicate 100 (''a'', ''x''))) init_sys"
  using enqueue_beyond_capacity [of "replicate 100 (''a'', ''x'') @ [(''b'', ''y'')]"]
  by (simp add: QUEUELEN_def)

lemma entries_after_null:
  "entries_after (Enqueue None m # es) = entries_after es"
  by (simp add: entries_after_def step_Enqueue_null)

lemma entries_after_enqueues:
  "entries_after (map (\<lambda>(t, m). Enqueue (Some t) (Some m)) es) =
     Inr (take QUEUELEN (map (\<lambda>(t, m). slot t m) es))"
proof -
  have inv: "queue_inv (shared init_sys)"
    by (simp add: init_sys_def queue_inv_init)
  from run_enqueues [OF inv, of es] show ?thesis
    by (auto simp: entries_after_def init_sys_def queue_entries_init)
qed

text \<open>
  Claim C4 as stated fails when a call has a \<open>NULL\<close> target. Of these 101 calls the
  first has a \<open>NULL\<close> target: it takes no slot, so after the first 100 calls only 99
  entries are present, and the call number 101 is stored in slot 99.
\<close>

theorem enqueue_null_target_counterexample:
  "entries_after (Enqueue None None # replicate 99 (Enqueue (Some ''a'') (Some ''x''))) =
     Inr (replicate 99 (slot ''a'' ''x'')) \<and>
   entries_after (Enqueue None None # replicate 99 (Enqueue (Some ''a'') (Some ''x'')) @
       [Enqueue (Some ''b'') (Some ''y'')]) =
     Inr (replicate 99 (slot ''a'' ''x'') @ [slot ''b'' ''y''])"
proof -
  have a: "replicate 99 (Enqueue (Some ''a'') (Some ''x'')) =
      map (\<lambda>(t, m). Enqueue (Some t) (Some m)) (replicate 99 (''a'', ''x''))"
    by simp
  have b: "replicate 99 (Enqueue (Some ''a'') (Some ''x'')) @ [Enqueue (Some ''b'') (Some ''y'')] =
      map (\<lambda>(t, m). Enqueue (Some t) (Some m)) (replicate 99 (''a'', ''x'') @ [(''b'', ''y'')])"
    by simp
  have "entries_after (Enqueue None None # replicate 99 (Enqueue (Some ''a'') (Some ''x''))) =
      Inr (replicate 99 (slot ''a'' ''x''))"
    unfolding entries_after_null a entries_after_enqueues by (simp add: QUEUELEN_def)
  moreover have "entries_after (Enqueue None None #
      replicate 99 (Enqueue (Some ''a'') (Some ''x'')) @ [Enqueue (Some ''b'') (Some ''y'')]) =
      Inr (replicate 99 (slot ''a'' ''x'') @ [slot ''b'' ''y''])"
    unfolding entries_after_null b entries_after_enqueues by (simp add: QUEUELEN_def)
  ultimately show ?thesis by (rule conjI)
qed

text \<open>
  Claim C5. In every state that a sequence of enqueue steps and printer rounds reaches
  from the initial state, \<open>0 \<le> queue_pos \<le> QUEUELEN\<close>; every single step keeps these
  bounds; and a printer round leaves \<open>queue_pos = 0\<close>. A state within an execution is
  the state after a prefix of its events, so the first part covers every instant.
\<close>

theorem queue_length_invariant:
  "(run es init_sys = Inr s \<longrightarrow>
      0 \<le> queue_pos (shared s) \<and> queue_pos (shared s) \<le> int QUEUELEN) \<and>
   (0 \<le> queue_pos (shared s0) \<and> queue_pos (shared s0) \<le> int QUEUELEN \<and> step e s0 = Inr s1 \<longrightarrow>
      0 \<le> queue_pos (shared s1) \<and> queue_pos (shared s1) \<le> int QUEUELEN) \<and>
   (step PrinterRound s0 = Inr s1 \<longrightarrow> queue_pos (shared s1) = 0)"
proof (intro conjI impI)
  assume "run es init_sys = Inr s"
  with run_inv [of init_sys es s] have "queue_inv (shared s)"
    by (simp add: init_sys_def queue_inv_init)
  then show "0 \<le> queue_pos (shared s)" and "queue_pos (shared s) \<le> int QUEUELEN"
    by (simp_all add: queue_inv_def)
next
  assume a: "0 \<le> queue_pos (shared s0) \<and> queue_pos (shared s0) \<le> int QUEUELEN \<and> step e s0 = Inr s1"
  then show "0 \<le> queue_pos (shared s1)"
    by (cases e)
      (auto simp: step_def enqueue_message_def receive_and_print_round_def
        split: sum.splits option.splits if_splits)
  from a show "queue_pos (shared s1) \<le> int QUEUELEN"
    by (cases e)
      (auto simp: step_def enqueue_message_def receive_and_print_round_def
        split: sum.splits option.splits if_splits)
next
  assume "step PrinterRound s0 = Inr s1"
  then show "queue_pos (shared s1) = 0"
    by (auto simp: step_def receive_and_print_round_def split: sum.splits)
qed


lemma take1_update: "0 < length xs \<Longrightarrow> take (Suc 0) (xs[0 := x]) = [x]"
  by (cases xs) auto

lemma round_single:
  assumes "length (c_str t) < STRLEN" and "length (c_str m) < STRLEN"
  shows "receive_and_print_round
           \<lparr>message_queue = (replicate QUEUELEN empty_message)[0 := slot t m], queue_pos = 1\<rparr> =
         Inr ([c_str t @ '': '' @ c_str m],
              \<lparr>message_queue = (replicate QUEUELEN empty_message)[0 := slot t m], queue_pos = 0\<rparr>)"
proof -
  let ?q = "\<lparr>message_queue = (replicate QUEUELEN empty_message)[0 := slot t m], queue_pos = 1\<rparr>"
  have inv: "queue_inv ?q"
    by (simp add: queue_inv_def QUEUELEN_def)
  have ent: "queue_entries ?q = [slot t m]"
    by (simp add: queue_entries_def take1_update QUEUELEN_def)
  from assms have "short_slot (slot t m)"
    unfolding short_slot_def by blast
  then have "printable ?q"
    by (simp add: printable_def ent)
  from receive_round_short [OF inv this] show ?thesis
    by (simp add: ent line_of_slot [OF assms])
qed

text \<open>The theorem at one enqueue, one enqueue with a \<open>NULL\<close> target, and a printer round.\<close>

theorem queue_length_invariant_witness:
  "run [Enqueue (Some ''host'') (Some ''msg''), Enqueue None None] init_sys =
     Inr \<lparr>shared = \<lparr>message_queue = (replicate QUEUELEN empty_message)[0 := slot ''host'' ''msg''],
                     queue_pos = 1\<rparr>, stdout = []\<rparr> \<and>
   step PrinterRound
     \<lparr>shared = \<lparr>message_queue = (replicate QUEUELEN empty_message)[0 := slot ''host'' ''msg''],
                 queue_pos = 1\<rparr>, stdout = []\<rparr> =
     Inr \<lparr>shared = \<lparr>message_queue = (replicate QUEUELEN empty_message)[0 := slot ''host'' ''msg''],
                     queue_pos = 0\<rparr>, stdout = [''host: msg'']\<rparr> \<and>
   (1::int) \<le> int QUEUELEN"
proof -
  let ?q = "(replicate QUEUELEN empty_message)[0 := slot ''host'' ''msg'']"
  let ?s = "\<lparr>shared = \<lparr>message_queue = ?q, queue_pos = 1\<rparr>, stdout = []\<rparr>"
  let ?s' = "\<lparr>shared = \<lparr>message_queue = ?q, queue_pos = 0\<rparr>, stdout = [''host: msg'']\<rparr>"
  have r: "run [Enqueue (Some ''host'') (Some ''msg''), Enqueue None None] init_sys = Inr ?s"
    by (simp add: step_def enqueue_message_def init_sys_def init_queue_def slot_def QUEUELEN_def)
  have m: "receive_and_print_round \<lparr>message_queue = ?q, queue_pos = 1\<rparr> =
      Inr ([''host: msg''], \<lparr>message_queue = ?q, queue_pos = 0\<rparr>)"
    using round_single [of "''host''" "''msg''"]
    by (simp add: c_str_def NUL_def STRLEN_def)
  have p: "step PrinterRound ?s = Inr ?s'"
    by (simp add: step_def m)
  from queue_length_invariant [of "[Enqueue (Some ''host'') (Some ''msg''), Enqueue None None]"
      ?s ?s PrinterRound ?s'] r p
  show ?thesis by simp
qed

text \<open>
  Claim C10. A call of \<open>enqueue_message\<close> with a free slot writes exactly \<open>STRLEN\<close>
  bytes into each of the two arrays of slot \<open>queue_pos\<close>: the bytes of the string, cut
  after \<open>STRLEN\<close> bytes, and NUL bytes for the rest. A string of \<open>STRLEN\<close> bytes or more
  is stored as its first \<open>STRLEN\<close> bytes; the call succeeds, the counter advances by
  one and no other slot changes.
\<close>

theorem enqueue_message_truncates:
  assumes "0 \<le> queue_pos q" and "queue_pos q < int QUEUELEN"
    and "length (message_queue q) = QUEUELEN"
  shows "\<exists>q'. enqueue_message (Some t) (Some m) q = Inr q' \<and>
           queue_pos q' = queue_pos q + 1 \<and>
           length (message_queue q') = QUEUELEN \<and>
           (\<forall>i. i \<noteq> nat (queue_pos q) \<longrightarrow> message_queue q' ! i = message_queue q ! i) \<and>
           target (message_queue q' ! nat (queue_pos q)) =
             take STRLEN (c_str t @ replicate STRLEN NUL) \<and>
           content (message_queue q' ! nat (queue_pos q)) =
             take STRLEN (c_str m @ replicate STRLEN NUL) \<and>
           length (target (message_queue q' ! nat (queue_pos q))) = STRLEN \<and>
           length (content (message_queue q' ! nat (queue_pos q))) = STRLEN \<and>
           (STRLEN \<le> length (c_str t) \<longrightarrow>
              target (message_queue q' ! nat (queue_pos q)) = take STRLEN (c_str t)) \<and>
           (STRLEN \<le> length (c_str m) \<longrightarrow>
              content (message_queue q' ! nat (queue_pos q)) = take STRLEN (c_str m))"
proof -
  from assms have n: "nat (queue_pos q) < length (message_queue q)"
    by (simp add: nat_less_iff)
  with assms show ?thesis
    by (simp add: enqueue_message_def strncpy_def min_def)
qed

text \<open>The theorem at a target of 300 bytes: the slot keeps its first 256.\<close>

theorem enqueue_message_truncates_witness:
  "enqueue_message (Some (replicate 300 CHR ''a'')) (Some ''seq 1 time 10.500 ms'') init_queue =
     Inr \<lparr>message_queue = (replicate QUEUELEN empty_message)
              [0 := \<lparr>target = replicate 256 CHR ''a'',
                     content = ''seq 1 time 10.500 ms'' @ replicate 236 NUL\<rparr>],
          queue_pos = 1\<rparr>"
proof -
  have c: "c_str (replicate 300 CHR ''a'') = replicate 300 CHR ''a''"
    by (simp add: c_str_def NUL_def)
  have "(0::int) \<le> queue_pos init_queue" "queue_pos init_queue < int QUEUELEN"
    "length (message_queue init_queue) = QUEUELEN"
    by (simp_all add: init_queue_def QUEUELEN_def)
  from enqueue_message_truncates [OF this, of "replicate 300 CHR ''a''" "''seq 1 time 10.500 ms''"]
  show ?thesis
    by (simp add: enqueue_message_def init_queue_def strncpy_def c STRLEN_def QUEUELEN_def)
      (simp add: c_str_def NUL_def)
qed





lemma enqueue_message_short:
  assumes "queue_inv q" and "printable q"
    and "length (c_str t) < STRLEN" and "length (c_str m) < STRLEN"
  shows "\<exists>q'. enqueue_message (Some t) (Some m) q = Inr q' \<and> queue_inv q' \<and> printable q'"
proof -
  from enqueue_message_entries [OF assms(1), of t m] obtain q' where
    q': "enqueue_message (Some t) (Some m) q = Inr q'"
      "queue_entries q' = take QUEUELEN (queue_entries q @ [slot t m])"
    by blast
  from assms(1) q'(1) have inv: "queue_inv q'" by (rule enqueue_message_inv)
  from assms(3,4) have s: "short_slot (slot t m)" unfolding short_slot_def by blast
  have "short_slot x" if "x \<in> set (queue_entries q')" for x
  proof -
    from that have "x \<in> set (queue_entries q) \<or> x = slot t m"
      unfolding q'(2) by (auto dest: in_set_takeD)
    with assms(2) s show ?thesis unfolding printable_def by blast
  qed
  then have "printable q'" by (simp add: printable_def)
  with q'(1) inv show ?thesis by blast
qed

lemma printer_round_short:
  assumes "queue_inv (shared s)" and "printable (shared s)"
  shows "step PrinterRound s =
           Inr \<lparr>shared = (shared s)\<lparr>queue_pos := 0\<rparr>,
                stdout = stdout s @ map line_of (queue_entries (shared s))\<rparr>"
    and "queue_inv ((shared s)\<lparr>queue_pos := 0\<rparr>)"
    and "printable ((shared s)\<lparr>queue_pos := 0\<rparr>)"
proof -
  show "step PrinterRound s =
           Inr \<lparr>shared = (shared s)\<lparr>queue_pos := 0\<rparr>,
                stdout = stdout s @ map line_of (queue_entries (shared s))\<rparr>"
    by (simp add: step_def receive_round_short [OF assms])
  from assms(1) show "queue_inv ((shared s)\<lparr>queue_pos := 0\<rparr>)"
    by (simp add: queue_inv_def)
  show "printable ((shared s)\<lparr>queue_pos := 0\<rparr>)"
    by (simp add: printable_def queue_entries_def)
qed









subsection \<open>The printer\<close>

lemma map_line_of_slots:
  "list_all (\<lambda>(t, m). length (c_str t) < STRLEN \<and> length (c_str m) < STRLEN) es \<Longrightarrow>
   map line_of (map (\<lambda>(t, m). slot t m) es) = map (\<lambda>(t, m). c_str t @ '': '' @ c_str m) es"
  by (induction es) (auto simp: line_of_slot)

lemma short_slots:
  "list_all (\<lambda>(t, m). length (c_str t) < STRLEN \<and> length (c_str m) < STRLEN) es \<Longrightarrow>
   \<forall>x \<in> set (map (\<lambda>(t, m). slot t m) es). short_slot x"
proof -
  have "short_slot (slot t m)"
    if "length (c_str t) < STRLEN" and "length (c_str m) < STRLEN" for t m
    using that unfolding short_slot_def by blast
  then show "list_all (\<lambda>(t, m). length (c_str t) < STRLEN \<and> length (c_str m) < STRLEN) es \<Longrightarrow>
      \<forall>x \<in> set (map (\<lambda>(t, m). slot t m) es). short_slot x"
    by (auto simp: list_all_iff)
qed

lemma list_all_take: "list_all P xs \<Longrightarrow> list_all P (take n xs)"
  by (auto simp: list_all_iff dest: in_set_takeD)

text \<open>
  A printer round on an empty queue prints nothing and leaves the queue empty; at
  program start it changes nothing at all.
\<close>

theorem drain_of_empty_queue:
  "receive_and_print_round (q\<lparr>queue_pos := 0\<rparr>) = Inr ([], q\<lparr>queue_pos := 0\<rparr>) \<and>
   step PrinterRound init_sys = Inr init_sys"
  by (simp add: receive_and_print_round_def step_def init_sys_def init_queue_def)

text \<open>
  The printer keeps the order of the calls: after any sequence of calls of
  \<open>enqueue_message\<close> with strings that fit their arrays, one printer round prints
  \<open>target: content\<close> for the first \<open>QUEUELEN\<close> of them, in the order of the calls, and
  empties the queue.
\<close>

theorem printer_keeps_enqueue_order:
  assumes "list_all (\<lambda>(t, m). length (c_str t) < STRLEN \<and> length (c_str m) < STRLEN) es"
  shows "\<exists>s. run (map (\<lambda>(t, m). Enqueue (Some t) (Some m)) es @ [PrinterRound]) init_sys = Inr s \<and>
           stdout s = map (\<lambda>(t, m). c_str t @ '': '' @ c_str m) (take QUEUELEN es) \<and>
           queue_pos (shared s) = 0"
proof -
  have inv: "queue_inv (shared init_sys)"
    by (simp add: init_sys_def queue_inv_init)
  from run_enqueues [OF inv, of es] obtain s1 where
    s1: "run (map (\<lambda>(t, m). Enqueue (Some t) (Some m)) es) init_sys = Inr s1"
      "stdout s1 = stdout init_sys" "queue_inv (shared s1)"
      "queue_entries (shared s1) =
         take QUEUELEN (queue_entries (shared init_sys) @ map (\<lambda>(t, m). slot t m) es)"
    by blast
  from s1(4) have e: "queue_entries (shared s1) = map (\<lambda>(t, m). slot t m) (take QUEUELEN es)"
    by (simp add: init_sys_def queue_entries_init take_map)
  from assms have a: "list_all (\<lambda>(t, m). length (c_str t) < STRLEN \<and> length (c_str m) < STRLEN)
      (take QUEUELEN es)"
    by (rule list_all_take)
  from short_slots [OF a] have p: "printable (shared s1)"
    by (simp add: printable_def e)
  have l: "map line_of (queue_entries (shared s1)) =
      map (\<lambda>(t, m). c_str t @ '': '' @ c_str m) (take QUEUELEN es)"
    unfolding e by (rule map_line_of_slots [OF a])
  from printer_round_short(1) [OF s1(3) p]
  have "step PrinterRound s1 =
      Inr \<lparr>shared = (shared s1)\<lparr>queue_pos := 0\<rparr>,
           stdout = stdout s1 @ map (\<lambda>(t, m). c_str t @ '': '' @ c_str m) (take QUEUELEN es)\<rparr>"
    unfolding l .
  with s1(1,2) show ?thesis
    by (simp add: run_append init_sys_def)
qed

text \<open>The theorem at three calls from two workers.\<close>

theorem printer_keeps_enqueue_order_witness:
  "\<exists>s. run [Enqueue (Some ''a'') (Some ''one''), Enqueue (Some ''b'') (Some ''two''),
            Enqueue (Some ''a'') (Some ''three''), PrinterRound] init_sys = Inr s \<and>
       stdout s = [''a: one'', ''b: two'', ''a: three''] \<and> queue_pos (shared s) = 0"
  using printer_keeps_enqueue_order [of "[(''a'', ''one''), (''b'', ''two''), (''a'', ''three'')]"]
  by (simp add: c_str_def NUL_def STRLEN_def QUEUELEN_def)

section \<open>Properties of the worker and the orchestrator\<close>

lemma enqueue_message_Some_Inr: "\<exists>q'. enqueue_message t (Some m) q = Inr q'"
  by (simp add: enqueue_message_def split: option.splits)

lemma ping_message_seq:
  "extract_seq ex line = Some (seq, len) \<Longrightarrow>
   ping_message ex pingres line q = (pingres, seq_text seq len, Inr q)"
  by (simp add: ping_message_def)

lemma ping_message_packets:
  "extract_seq ex line = None \<Longrightarrow> extract_packets ex line = Some (s, r) \<Longrightarrow>
   ping_message ex pingres line q =
     (pingres\<lparr>sent := s, recv := r\<rparr>, packets_text s r,
      enqueue_message (target_p pingres) (Some (packets_text s r)) q)"
  by (simp add: ping_message_def)

lemma ping_message_stats:
  "extract_seq ex line = None \<Longrightarrow> extract_packets ex line = None \<Longrightarrow>
   extract_stats ex line = Some (mn, av, mx, sd) \<Longrightarrow>
   ping_message ex pingres line q =
     (pingres\<lparr>min_p := mn, avg := av, max_p := mx, stdev := sd\<rparr>, stats_text mn av mx sd,
      enqueue_message (target_p pingres) (Some (stats_text mn av mx sd)) q)"
  by (simp add: ping_message_def)

text \<open>
  Claim C6. What \<open>ping_message\<close> does with a line is decided by the Line Classifier of
  the specification: the sequence-reply pattern is tested first, then summary-counts,
  then summary-stats, the first match wins, and a line that matches none is
  unrecognized. Every line falls under exactly one of the four kinds, and
  \<open>ping_message\<close> never faults, whatever the line and the target.
\<close>

theorem ping_message_classifies:
  "ping_message ex pingres line q =
     (case classify_spec ex line of
        SequenceReply seq len \<Rightarrow> (pingres, seq_text seq len, Inr q)
      | SummaryCounts s r \<Rightarrow>
          (pingres\<lparr>sent := s, recv := r\<rparr>, packets_text s r,
           enqueue_message (target_p pingres) (Some (packets_text s r)) q)
      | SummaryStats mn av mx sd \<Rightarrow>
          (pingres\<lparr>min_p := mn, avg := av, max_p := mx, stdev := sd\<rparr>, stats_text mn av mx sd,
           enqueue_message (target_p pingres) (Some (stats_text mn av mx sd)) q)
      | Unrecognized \<Rightarrow> (pingres, line, Inr q)) \<and>
   (\<exists>q'. snd (snd (ping_message ex pingres line q)) = Inr q') \<and>
   (extract_seq ex line = Some (seq, len) \<longrightarrow> classify_spec ex line = SequenceReply seq len) \<and>
   (extract_seq ex line = None \<and> extract_packets ex line = Some (s, r) \<longrightarrow>
      classify_spec ex line = SummaryCounts s r) \<and>
   (extract_seq ex line = None \<and> extract_packets ex line = None \<and>
    extract_stats ex line = Some (mn, av, mx, sd) \<longrightarrow>
      classify_spec ex line = SummaryStats mn av mx sd) \<and>
   (extract_seq ex line = None \<and> extract_packets ex line = None \<and>
    extract_stats ex line = None \<longrightarrow>
      classify_spec ex line = Unrecognized)"
proof -
  have a: "ping_message ex pingres line q =
     (case classify_spec ex line of
        SequenceReply seq len \<Rightarrow> (pingres, seq_text seq len, Inr q)
      | SummaryCounts s r \<Rightarrow>
          (pingres\<lparr>sent := s, recv := r\<rparr>, packets_text s r,
           enqueue_message (target_p pingres) (Some (packets_text s r)) q)
      | SummaryStats mn av mx sd \<Rightarrow>
          (pingres\<lparr>min_p := mn, avg := av, max_p := mx, stdev := sd\<rparr>, stats_text mn av mx sd,
           enqueue_message (target_p pingres) (Some (stats_text mn av mx sd)) q)
      | Unrecognized \<Rightarrow> (pingres, line, Inr q))"
    by (simp add: ping_message_def classify_spec_def enqueue_message_def split: option.splits)
  have b: "\<exists>q'. snd (snd (ping_message ex pingres line q)) = Inr q'"
    using enqueue_message_Some_Inr
    by (simp add: ping_message_def enqueue_message_def [of None] split: option.splits)
  have c: "extract_seq ex line = Some (seq, len) \<longrightarrow> classify_spec ex line = SequenceReply seq len"
    by (simp add: classify_spec_def)
  have d: "extract_seq ex line = None \<and> extract_packets ex line = Some (s, r) \<longrightarrow>
      classify_spec ex line = SummaryCounts s r"
    by (simp add: classify_spec_def)
  have e: "extract_seq ex line = None \<and> extract_packets ex line = None \<and>
      extract_stats ex line = Some (mn, av, mx, sd) \<longrightarrow>
      classify_spec ex line = SummaryStats mn av mx sd"
    by (simp add: classify_spec_def)
  have f: "extract_seq ex line = None \<and> extract_packets ex line = None \<and>
      extract_stats ex line = None \<longrightarrow> classify_spec ex line = Unrecognized"
    by (simp add: classify_spec_def)
  from a b c d e f show ?thesis by blast
qed

text \<open>
  The theorem at four lines, one of each kind. The first line matches both the
  sequence-reply and the summary-counts pattern and is a sequence reply.
\<close>

theorem ping_message_classifies_witness:
  "classify_spec \<lparr>extract_seq = [''seq=1 time=10.5'' \<mapsto> (1, Finite (21 / 2))],
             extract_packets = [''seq=1 time=10.5'' \<mapsto> (10, 8), ''10 sent, 8 received'' \<mapsto> (10, 8)],
             extract_stats = [''min/avg/max/mdev = 1/2/3/1'' \<mapsto> (Finite 1, Finite 2, Finite 3, Finite 1)]\<rparr>
     ''seq=1 time=10.5'' = SequenceReply 1 (Finite (21 / 2)) \<and>
   classify_spec \<lparr>extract_seq = [''seq=1 time=10.5'' \<mapsto> (1, Finite (21 / 2))],
             extract_packets = [''seq=1 time=10.5'' \<mapsto> (10, 8), ''10 sent, 8 received'' \<mapsto> (10, 8)],
             extract_stats = [''min/avg/max/mdev = 1/2/3/1'' \<mapsto> (Finite 1, Finite 2, Finite 3, Finite 1)]\<rparr>
     ''10 sent, 8 received'' = SummaryCounts 10 8 \<and>
   classify_spec \<lparr>extract_seq = [''seq=1 time=10.5'' \<mapsto> (1, Finite (21 / 2))],
             extract_packets = [''seq=1 time=10.5'' \<mapsto> (10, 8), ''10 sent, 8 received'' \<mapsto> (10, 8)],
             extract_stats = [''min/avg/max/mdev = 1/2/3/1'' \<mapsto> (Finite 1, Finite 2, Finite 3, Finite 1)]\<rparr>
     ''min/avg/max/mdev = 1/2/3/1'' = SummaryStats (Finite 1) (Finite 2) (Finite 3) (Finite 1) \<and>
   classify_spec \<lparr>extract_seq = [''seq=1 time=10.5'' \<mapsto> (1, Finite (21 / 2))],
             extract_packets = [''seq=1 time=10.5'' \<mapsto> (10, 8), ''10 sent, 8 received'' \<mapsto> (10, 8)],
             extract_stats = [''min/avg/max/mdev = 1/2/3/1'' \<mapsto> (Finite 1, Finite 2, Finite 3, Finite 1)]\<rparr>
     ''PING host'' = Unrecognized"
proof -
  let ?ex = "\<lparr>extract_seq = [''seq=1 time=10.5'' \<mapsto> (1, Finite (21 / 2))],
             extract_packets = [''seq=1 time=10.5'' \<mapsto> (10, 8), ''10 sent, 8 received'' \<mapsto> (10, 8)],
             extract_stats = [''min/avg/max/mdev = 1/2/3/1'' \<mapsto> (Finite 1, Finite 2, Finite 3, Finite 1)]\<rparr>"
  from ping_message_classifies [of ?ex _ "''seq=1 time=10.5''" _ 1 "Finite (21 / 2)"]
  have 1: "classify_spec ?ex ''seq=1 time=10.5'' = SequenceReply 1 (Finite (21 / 2))"
    by simp
  from ping_message_classifies [of ?ex _ "''10 sent, 8 received''" _ _ _ 10 8]
  have 2: "classify_spec ?ex ''10 sent, 8 received'' = SummaryCounts 10 8"
    by simp
  from ping_message_classifies [of ?ex _ "''min/avg/max/mdev = 1/2/3/1''" _ _ _ _ _
      "Finite 1" "Finite 2" "Finite 3" "Finite 1"]
  have 3: "classify_spec ?ex ''min/avg/max/mdev = 1/2/3/1'' =
      SummaryStats (Finite 1) (Finite 2) (Finite 3) (Finite 1)"
    by simp
  from ping_message_classifies [of ?ex _ "''PING host''"]
  have 4: "classify_spec ?ex ''PING host'' = Unrecognized"
    by simp
  from 1 2 3 4 show ?thesis by blast
qed


lemma fmt_d_10: "fmt_d 10 = ''10''"
  by code_simp

lemma fmt_d_3: "fmt_d 3 = ''3''"
  by code_simp

lemma loss_3_3: "fmt_f 1 (loss_percent 3 3) = ''0.0''"
  by code_simp

text \<open>
  Claim C3 says that the timeout appears in the invocation of the external process.
  The command line is built from \<open>counts\<close> and \<open>target\<close> alone: changing the timeout of
  a task changes neither the command nor anything else the worker does, and the
  default task with timeout 1000 runs \<open>ping -c 10 8.8.8.8\<close>.
\<close>

theorem timeout_not_in_command:
  "ping_cmd (task\<lparr>timeout := t\<rparr>) = ping_cmd task \<and>
   exec_ping ex popen pingres0 (task\<lparr>timeout := t\<rparr>) q = exec_ping ex popen pingres0 task q \<and>
   ping_cmd \<lparr>target_t = ''8.8.8.8'', timeout = 1000, counts = 10\<rparr> = ''ping -c 10 8.8.8.8''"
  by (simp add: ping_cmd_def exec_ping_def fmt_d_10 cong: option.case_cong)

text \<open>
  Claim C1 says that a sequence reply is enqueued. Whenever \<open>extract_seq\<close> matches a
  line, \<open>ping_message\<close> writes the text into its buffer and leaves the queue as it
  was. A worker for target \<open>A\<close> whose process emits three sequence replies and one
  summary line, followed by a printer round, prints one line, not four.
\<close>

theorem sequence_reply_not_enqueued:
  "ping_message (ex\<lparr>extract_seq := (extract_seq ex)(line \<mapsto> (seq, len))\<rparr>) pingres line q =
     (pingres, seq_text seq len, Inr q) \<and>
   (case exec_ping
       \<lparr>extract_seq = [''seq=1 time=10.5'' \<mapsto> (1, Finite (21 / 2)),
                       ''seq=2 time=10.5'' \<mapsto> (2, Finite (21 / 2)),
                       ''seq=3 time=10.5'' \<mapsto> (3, Finite (21 / 2))],
        extract_packets = [''3 sent, 3 received'' \<mapsto> (3, 3)],
        extract_stats = Map.empty\<rparr>
       [''ping -c 3 A'' \<mapsto>
          [''seq=1 time=10.5'', ''seq=2 time=10.5'', ''seq=3 time=10.5'', ''3 sent, 3 received'']]
       \<lparr>target_p = None, sent = 0, recv = 0, min_p = Finite 0, avg = Finite 0,
        max_p = Finite 0, stdev = Finite 0\<rparr>
       \<lparr>target_t = ''A'', timeout = 1000, counts = 3\<rparr> init_queue of
      (errs, Inl f) \<Rightarrow> Inl f
    | (errs, Inr q') \<Rightarrow> map_sum id fst (receive_and_print_round q')) =
     Inr [''A: sent: 3 received: 3 loss: 0.0%'' @ newline]"
proof -
  have p: "packets_text 3 3 = ''sent: 3 received: 3 loss: 0.0%'' @ newline"
    unfolding packets_text_def fmt_d_3 loss_3_3 by simp
  have c: "ping_cmd \<lparr>target_t = ''A'', timeout = 1000, counts = 3\<rparr> = ''ping -c 3 A''"
    by (simp add: ping_cmd_def fmt_d_3)
  have ca: "c_str ''A'' = ''A''"
    by (simp add: c_str_def NUL_def)
  have cs: "c_str (packets_text 3 3) = ''sent: 3 received: 3 loss: 0.0%'' @ newline"
    by (simp add: p c_str_def NUL_def newline_def)
  have l: "length (c_str ''A'') < STRLEN" "length (c_str (packets_text 3 3)) < STRLEN"
    unfolding ca cs by (simp_all add: STRLEN_def newline_def)
  have m: "receive_and_print_round
      \<lparr>message_queue = (replicate QUEUELEN empty_message)[0 := slot ''A'' (packets_text 3 3)],
       queue_pos = 1\<rparr> =
      Inr ([''A: sent: 3 received: 3 loss: 0.0%'' @ newline],
           \<lparr>message_queue = (replicate QUEUELEN empty_message)[0 := slot ''A'' (packets_text 3 3)],
            queue_pos = 0\<rparr>)"
    using round_single [OF l] unfolding ca cs by simp
  show ?thesis
    by (simp add: ping_message_def exec_ping_def c enqueue_message_def init_queue_def
        m [unfolded slot_def STRLEN_def] STRLEN_def)
      (simp add: QUEUELEN_def)
qed

















section \<open>Properties of the loss computation\<close>

lemma rne_error: "\<bar>of_int (rne x) - x\<bar> \<le> 1 / 2"
proof -
  have "of_int \<lfloor>x\<rfloor> \<le> x" "x < of_int \<lfloor>x\<rfloor> + 1"
    by linarith+
  then show ?thesis
    by (auto simp: rne_def Let_def)
qed

lemma rne_of_int: "rne (of_int k) = k"
  by (simp add: rne_def)

lemma ilog2_bounds:
  assumes "0 < x"
  shows "2 powi ilog2 x \<le> x" and "x < 2 powi (ilog2 x + 1)"
proof -
  have "2 powi ilog2 x \<le> x \<and> x < 2 powi (ilog2 x + 1)"
  proof (cases "1 \<le> x")
    case True
    define n where "n = \<lfloor>x\<rfloor>"
    from True have n: "0 < n" by (simp add: n_def)
    have nx: "of_int n \<le> x" "x < of_int n + 1"
      unfolding n_def by linarith+
    from bitlen_bounds [OF n] have b: "2 ^ nat (bitlen n - 1) \<le> n" "n < 2 ^ nat (bitlen n)"
      by simp_all
    from n have k: "1 \<le> bitlen n"
      using bitlen_eq_zero_iff [of n] bitlen_nonneg [of n] by linarith
    have "(2::rat) powi (bitlen n - 1) = of_int (2 ^ nat (bitlen n - 1))"
      using k by (simp add: power_int_def)
    also have "\<dots> \<le> of_int n" using b(1) by (simp only: of_int_le_iff)
    finally have lo: "(2::rat) powi (bitlen n - 1) \<le> x" using nx(1) by linarith
    from b(2) have "n + 1 \<le> 2 ^ nat (bitlen n)" by simp
    then have "(of_int (n + 1) :: rat) \<le> of_int (2 ^ nat (bitlen n))"
      by (simp only: of_int_le_iff)
    also have "\<dots> = 2 powi (bitlen n)"
      using k by (simp add: power_int_def)
    finally have hi: "x < 2 powi (bitlen n)" using nx(2) by simp
    from True lo hi show ?thesis by (simp add: ilog2_def n_def)
  next
    case False
    define y where "y = 1 / x"
    define m where "m = \<lceil>y\<rceil> - 1"
    from False assms have y1: "1 < y" by (simp add: y_def)
    then have "2 \<le> \<lceil>y\<rceil>" by linarith
    then have m: "0 < m" by (simp add: m_def)
    have my: "of_int m < y" "y \<le> of_int m + 1"
      unfolding m_def by linarith+
    from bitlen_bounds [OF m] have b: "2 ^ nat (bitlen m - 1) \<le> m" "m < 2 ^ nat (bitlen m)"
      by simp_all
    from m have k: "1 \<le> bitlen m"
      using bitlen_eq_zero_iff [of m] bitlen_nonneg [of m] by linarith
    have xy: "x = 1 / y" using assms by (simp add: y_def)
    from b(2) have "m + 1 \<le> 2 ^ nat (bitlen m)" by simp
    then have "(of_int (m + 1) :: rat) \<le> of_int (2 ^ nat (bitlen m))"
      by (simp only: of_int_le_iff)
    with my(2) have yhi: "y \<le> 2 ^ nat (bitlen m)" by simp
    have "(2::rat) powi (- bitlen m) = 1 / 2 ^ nat (bitlen m)"
      using k by (simp add: power_int_def field_simps)
    also have "\<dots> \<le> 1 / y"
      using yhi y1 by (simp add: frac_le)
    finally have lo: "(2::rat) powi (- bitlen m) \<le> x" by (simp add: xy)
    have "(of_int (2 ^ nat (bitlen m - 1)) :: rat) \<le> of_int m"
      using b(1) by (simp only: of_int_le_iff)
    then have "(2::rat) ^ nat (bitlen m - 1) \<le> of_int m" by simp
    with my(1) have ylo: "2 ^ nat (bitlen m - 1) < y" by linarith
    have "x < 1 / 2 ^ nat (bitlen m - 1)"
      unfolding xy using ylo by (simp add: frac_less2)
    also have "\<dots> = (2::rat) powi (- bitlen m + 1)"
    proof (cases "bitlen m = 1")
      case True
      then show ?thesis by simp
    next
      case False
      with k have "- bitlen m + 1 < 0" by simp
      moreover have "nat (- (- bitlen m + 1)) = nat (bitlen m - 1)" by simp
      ultimately show ?thesis by (simp add: power_int_def field_simps)
    qed
    finally have hi: "x < 2 powi (- bitlen m + 1)" .
    from False lo hi show ?thesis by (simp add: ilog2_def y_def m_def)
  qed
  then show "2 powi ilog2 x \<le> x" and "x < 2 powi (ilog2 x + 1)" by simp_all
qed


lemma round_to_prec_error: "\<bar>round_to_prec p x - x\<bar> \<le> \<bar>x\<bar> / 2 ^ p"
proof (cases "x = 0")
  case True
  then show ?thesis by (simp add: round_to_prec_def)
next
  case False
  define e where "e = ilog2 \<bar>x\<bar> - int p + 1"
  define B :: rat where "B = 2 powi e"
  have B: "0 < B" by (simp add: B_def zero_less_power_int)
  from False have r: "round_to_prec p x = of_int (rne (x / B)) * B"
    by (simp add: round_to_prec_def Let_def e_def B_def)
  have "round_to_prec p x - x = (of_int (rne (x / B)) - x / B) * B"
    using B by (simp add: r field_simps)
  then have "\<bar>round_to_prec p x - x\<bar> = \<bar>of_int (rne (x / B)) - x / B\<bar> * B"
    using B by (simp add: abs_mult)
  also have "\<dots> \<le> 1 / 2 * B"
    using rne_error [of "x / B"] B by (intro mult_right_mono) simp_all
  finally have 1: "\<bar>round_to_prec p x - x\<bar> \<le> B / 2" by simp
  from False have "2 powi ilog2 \<bar>x\<bar> \<le> \<bar>x\<bar>"
    by (intro ilog2_bounds) simp
  moreover have "ilog2 \<bar>x\<bar> = e + (int p - 1)" by (simp add: e_def)
  ultimately have "(2::rat) powi (e + (int p - 1)) \<le> \<bar>x\<bar>" by simp
  moreover have "(2::rat) powi (e + (int p - 1)) = B * 2 powi (int p - 1)"
    by (simp add: power_int_add B_def)
  moreover have "(2::rat) powi (int p - 1) = 2 ^ p / 2"
    by (simp add: power_int_diff)
  ultimately have "B * 2 ^ p / 2 \<le> \<bar>x\<bar>" by simp
  then have "B / 2 \<le> \<bar>x\<bar> / 2 ^ p"
    by (simp add: field_simps)
  with 1 show ?thesis by linarith
qed

lemma ilog2_less:
  assumes "0 < x" and "x < 2 ^ p"
  shows "ilog2 x < int p"
proof (rule ccontr)
  assume "\<not> ilog2 x < int p"
  then have "int p \<le> ilog2 x" by simp
  then have "(2::rat) powi int p \<le> 2 powi ilog2 x"
    by (intro power_int_increasing) simp_all
  with ilog2_bounds(1) [OF assms(1)] assms(2) show False by simp
qed

lemma round_to_prec_int:
  assumes "\<bar>i\<bar> < 2 ^ p"
  shows "round_to_prec p (of_int i) = of_int i"
proof (cases "i = 0")
  case True
  then show ?thesis by (simp add: round_to_prec_def)
next
  case False
  define e where "e = ilog2 \<bar>of_int i\<bar> - int p + 1"
  define n where "n = nat (- e)"
  from assms have "\<bar>of_int i :: rat\<bar> < 2 ^ p"
    by (metis of_int_abs of_int_less_iff of_int_numeral of_int_power)
  with False have "ilog2 \<bar>of_int i\<bar> < int p"
    by (intro ilog2_less) simp_all
  then have e: "e \<le> 0" by (simp add: e_def)
  then have B: "(2::rat) powi e = 1 / 2 ^ n"
    by (cases "e = 0") (simp_all add: power_int_def n_def field_simps)
  have "(of_int i :: rat) / 2 powi e = of_int (i * 2 ^ n)"
    by (simp add: B)
  then have "rne (of_int i / 2 powi e) = i * 2 ^ n"
    by (simp only: rne_of_int)
  with False show ?thesis
    by (simp add: round_to_prec_def Let_def e_def [symmetric] B)
qed


lemma loss_percent_error:
  assumes "s \<noteq> 0" and "\<bar>s\<bar> \<le> 2 ^ 31" and "\<bar>r\<bar> \<le> 2 ^ 31"
  shows "\<exists>L. loss_percent r s = Finite L \<and>
           \<bar>L - (100 - of_int r * 100 / of_int s)\<bar> \<le>
             (100 + \<bar>of_int r * 100 / of_int s\<bar>) / 2 ^ 23"
proof -
  define x :: rat where "x = of_int r * 100 / of_int s"
  define b where "b = to_double x"
  define c where "c = to_double (100 - b)"
  define L where "L = to_float c"
  from assms(3) have "\<bar>r\<bar> < 2 ^ 53" by simp
  then have r: "to_double (of_int r) = of_int r"
    unfolding to_double_def by (rule round_to_prec_int)
  from assms(2) have "\<bar>s\<bar> < 2 ^ 53" by simp
  then have s: "to_double (of_int s) = of_int s"
    unfolding to_double_def by (rule round_to_prec_int)
  from assms(3) have "\<bar>r * 100\<bar> < 2 ^ 53" by simp
  then have "to_double (of_int (r * 100)) = of_int (r * 100)"
    unfolding to_double_def by (rule round_to_prec_int)
  then have p: "to_double (of_int r * 100) = of_int r * 100" by simp
  from assms(1) have loss: "loss_percent r s = Finite L"
    by (simp add: loss_percent_def r s p L_def c_def b_def x_def)
  have 1: "\<bar>b - x\<bar> \<le> \<bar>x\<bar> / 2 ^ 53"
    unfolding b_def to_double_def by (rule round_to_prec_error)
  have 2: "\<bar>c - (100 - b)\<bar> \<le> \<bar>100 - b\<bar> / 2 ^ 53"
    unfolding c_def to_double_def by (rule round_to_prec_error)
  have 3: "\<bar>L - c\<bar> \<le> \<bar>c\<bar> / 2 ^ 24"
    unfolding L_def to_float_def by (rule round_to_prec_error)
  define X where "X = \<bar>x\<bar>"
  define d1 where "d1 = \<bar>b - x\<bar>"
  define A where "A = \<bar>100 - b\<bar>"
  define d2 where "d2 = \<bar>c - (100 - b)\<bar>"
  define C where "C = \<bar>c\<bar>"
  define d3 where "d3 = \<bar>L - c\<bar>"
  have X: "0 \<le> X" by (simp add: X_def)
  from 1 have b1: "9007199254740992 * d1 \<le> X"
    by (simp add: X_def d1_def field_simps)
  have b2: "A \<le> 100 + X + d1"
    unfolding A_def X_def d1_def by linarith
  from 2 have c1: "9007199254740992 * d2 \<le> A"
    by (simp add: d2_def A_def field_simps)
  have c2: "C \<le> A + d2"
    unfolding C_def A_def d2_def by linarith
  from 3 have l1: "16777216 * d3 \<le> C"
    by (simp add: d3_def C_def field_simps)
  define T where "T = \<bar>L - (100 - x)\<bar>"
  have t: "T \<le> d3 + d2 + d1"
    unfolding T_def d1_def d2_def d3_def by linarith
  from b1 b2 c1 c2 l1 t X have "8388608 * T \<le> 100 + X"
    by linarith
  then have "\<bar>L - (100 - x)\<bar> \<le> (100 + X) / 8388608"
    by (simp add: field_simps T_def)
  with loss show ?thesis by (simp add: x_def X_def)
qed

lemma fmt_f_1_Finite:
  "fmt_f 1 (Finite L) =
     (if L < 0 then ''-'' else []) @ show_nat (nat (rne (\<bar>L\<bar> * 10)) div 10) @ ''.'' @
     [digit (nat (rne (\<bar>L\<bar> * 10)) mod 10)]"
  by (simp add: fmt_f_def fmt_fixed_def frac_digits_def Let_def)

lemma rne_nonneg: "0 \<le> x \<Longrightarrow> 0 \<le> rne x"
  by (auto simp: rne_def Let_def)

lemma printed_decimal_error:
  "\<bar>of_nat (nat (rne (\<bar>L\<bar> * 10))) / 10 - \<bar>L\<bar>\<bar> \<le> 1 / 20"
proof -
  have "0 \<le> rne (\<bar>L\<bar> * 10)" by (rule rne_nonneg) simp
  then have "(of_nat (nat (rne (\<bar>L\<bar> * 10))) :: rat) = of_int (rne (\<bar>L\<bar> * 10))"
    by simp
  moreover have "of_int (rne (\<bar>L\<bar> * 10)) / 10 - \<bar>L\<bar> =
      (of_int (rne (\<bar>L\<bar> * 10)) - \<bar>L\<bar> * 10) / 10"
    by simp
  moreover have "\<bar>(of_int (rne (\<bar>L\<bar> * 10)) - \<bar>L\<bar> * 10) / 10\<bar> =
      \<bar>of_int (rne (\<bar>L\<bar> * 10)) - \<bar>L\<bar> * 10\<bar> / 10"
    by (simp only: abs_divide abs_numeral)
  moreover note rne_error [of "\<bar>L\<bar> * 10"]
  ultimately show ?thesis by (simp add: field_simps)
qed


text \<open>
  Claim C7. For a summary-counts line with \<open>sent > 0\<close> (and counts in the range of a
  32-bit \<open>int\<close>), \<open>ping_message\<close> enqueues the text
  \<open>sent: <s> received: <r> loss: <p>%\<close>, where \<open><p>\<close> is a number with one decimal,
  \<open>n / 10\<close> with its sign: it is within \<open>1/20\<close> of the computed \<open>float\<close> \<open>L\<close>, and \<open>L\<close>
  differs from \<open>100 - received * 100 / sent\<close> by no more than the rounding of the
  floating-point operations, which is below \<open>(100 + |received * 100 / sent|) / 2 ^ 23\<close>.
\<close>

theorem loss_percent_message:
  assumes "0 < s" and "s < 2 ^ 31" and "\<bar>r\<bar> \<le> 2 ^ 31"
    and "extract_seq ex line = None" and "extract_packets ex line = Some (s, r)"
  shows "\<exists>(L::rat) n.
     ping_message ex pingres line q =
       (pingres\<lparr>sent := s, recv := r\<rparr>, packets_text s r,
        enqueue_message (target_p pingres) (Some (packets_text s r)) q) \<and>
     packets_text s r =
       ''sent: '' @ fmt_d s @ '' received: '' @ fmt_d r @ '' loss: '' @
       (if L < 0 then ''-'' else []) @ show_nat (n div 10) @ ''.'' @ [digit (n mod 10)] @
       ''%'' @ newline \<and>
     \<bar>of_nat n / 10 - \<bar>L\<bar>\<bar> \<le> 1 / 20 \<and>
     \<bar>L - (100 - of_int r * 100 / of_int s)\<bar> \<le> (100 + \<bar>of_int r * 100 / of_int s\<bar>) / 2 ^ 23"
proof -
  from assms(1,2) have "s \<noteq> 0" "\<bar>s\<bar> \<le> 2 ^ 31" by simp_all
  from loss_percent_error [OF this assms(3)] obtain L where
    L: "loss_percent r s = Finite L"
      "\<bar>L - (100 - of_int r * 100 / of_int s)\<bar> \<le> (100 + \<bar>of_int r * 100 / of_int s\<bar>) / 2 ^ 23"
    by blast
  define n where "n = nat (rne (\<bar>L\<bar> * 10))"
  have "packets_text s r =
       ''sent: '' @ fmt_d s @ '' received: '' @ fmt_d r @ '' loss: '' @
       (if L < 0 then ''-'' else []) @ show_nat (n div 10) @ ''.'' @ [digit (n mod 10)] @
       ''%'' @ newline"
    unfolding packets_text_def L(1) fmt_f_1_Finite n_def by simp
  moreover have "\<bar>of_nat n / 10 - \<bar>L\<bar>\<bar> \<le> 1 / 20"
    unfolding n_def by (rule printed_decimal_error)
  moreover note ping_message_packets [OF assms(4,5), of pingres q] L(2)
  ultimately show ?thesis by blast
qed

lemma packets_text_10_8: "packets_text 10 8 = ''sent: 10 received: 8 loss: 20.0%'' @ newline"
  by code_simp

text \<open>The theorem at \<open>sent = 10\<close> and \<open>received = 8\<close>: the message shows \<open>loss: 20.0%\<close>.\<close>

theorem loss_percent_message_witness:
  "ping_message
     \<lparr>extract_seq = Map.empty,
      extract_packets = [''10 packets transmitted, 8 received'' \<mapsto> (10, 8)],
      extract_stats = Map.empty\<rparr>
     \<lparr>target_p = Some ''host'', sent = 0, recv = 0, min_p = Finite 0, avg = Finite 0,
      max_p = Finite 0, stdev = Finite 0\<rparr>
     ''10 packets transmitted, 8 received'' init_queue =
   (\<lparr>target_p = Some ''host'', sent = 10, recv = 8, min_p = Finite 0, avg = Finite 0,
     max_p = Finite 0, stdev = Finite 0\<rparr>,
    ''sent: 10 received: 8 loss: 20.0%'' @ newline,
    Inr \<lparr>message_queue = (replicate QUEUELEN empty_message)
             [0 := slot ''host'' (''sent: 10 received: 8 loss: 20.0%'' @ newline)],
         queue_pos = 1\<rparr>)"
  using loss_percent_message [of 10 8
      "\<lparr>extract_seq = Map.empty,
        extract_packets = [''10 packets transmitted, 8 received'' \<mapsto> (10, 8)],
        extract_stats = Map.empty\<rparr>"
      "''10 packets transmitted, 8 received''"
      "\<lparr>target_p = Some ''host'', sent = 0, recv = 0, min_p = Finite 0, avg = Finite 0,
        max_p = Finite 0, stdev = Finite 0\<rparr>" init_queue]
  by (simp add: packets_text_10_8 enqueue_message_def init_queue_def slot_def QUEUELEN_def)

end
